theory Spec2Isabelle
  imports Main "HOL-Library.Sublist"
begin

section \<open>Python strings\<close>

text \<open>
  A Python \<open>str\<close> is modelled as a \<open>string\<close> (a list of characters), one list element
  per code point; the model covers the code points below 256. The whitespace
  characters are the ones \<open>str.strip()\<close> removes in that range: U+0009 to U+000D,
  U+001C to U+0020, U+0085 and U+00A0.
\<close>

abbreviation dquote :: char where
  "dquote \<equiv> CHR 0x22"

abbreviation newline :: char where
  "newline \<equiv> CHR 0x0A"

definition is_space :: "char \<Rightarrow> bool" where
  "is_space c \<longleftrightarrow>
     c = CHR 0x09 \<or> c = CHR 0x0A \<or> c = CHR 0x0B \<or> c = CHR 0x0C \<or> c = CHR 0x0D \<or>
     c = CHR 0x1C \<or> c = CHR 0x1D \<or> c = CHR 0x1E \<or> c = CHR 0x1F \<or> c = CHR 0x20 \<or>
     c = CHR 0x85 \<or> c = CHR 0xA0"

text \<open>\<open>s.strip()\<close>: whitespace removed at both ends.\<close>

definition strip :: "string \<Rightarrow> string" where
  "strip s = rev (dropWhile is_space (rev (dropWhile is_space s)))"

text \<open>\<open>s.strip(chars)\<close>: every leading and every trailing character that is in \<open>chars\<close>
  removed.\<close>

definition strip_chars :: "string \<Rightarrow> string \<Rightarrow> string" where
  "strip_chars chars s =
     rev (dropWhile (\<lambda>c. c \<in> set chars) (rev (dropWhile (\<lambda>c. c \<in> set chars) s)))"

text \<open>\<open>s.split(sep)\<close> for a separator of one character: never empty, one more piece
  than there are separators.\<close>

fun split :: "char \<Rightarrow> string \<Rightarrow> string list" where
  "split sep [] = [[]]"
| "split sep (c # cs) =
     (if c = sep then [] # split sep cs
      else (case split sep cs of
              piece # pieces \<Rightarrow> (c # piece) # pieces
            | [] \<Rightarrow> [[c]]))"

text \<open>\<open>s.split(sep, 1)\<close> for a separator of one character: at most one cut, at the
  first separator.\<close>

definition split1 :: "char \<Rightarrow> string \<Rightarrow> string list" where
  "split1 sep s =
     (if sep \<in> set s
      then [takeWhile (\<lambda>c. c \<noteq> sep) s, tl (dropWhile (\<lambda>c. c \<noteq> sep) s)]
      else [s])"

text \<open>\<open>sep.join(parts)\<close>.\<close>

fun join :: "string \<Rightarrow> string list \<Rightarrow> string" where
  "join sep [] = []"
| "join sep [p] = p"
| "join sep (p # q # ps) = p @ sep @ join sep (q # ps)"

text \<open>\<open>a in b\<close> on strings: \<open>a\<close> occurs in \<open>b\<close> as a contiguous run of characters.\<close>

fun py_in :: "string \<Rightarrow> string \<Rightarrow> bool" where
  "py_in a [] \<longleftrightarrow> a = []"
| "py_in a (c # cs) \<longleftrightarrow> prefix a (c # cs) \<or> py_in a cs"

text \<open>\<open>key, value = parts\<close>: unpacking a list into two names raises \<open>ValueError\<close>
  unless the list has exactly two elements.\<close>

datatype py_error = ValueError

fun unpack2 :: "'a list \<Rightarrow> py_error + ('a \<times> 'a)" where
  "unpack2 [a, b] = Inr (a, b)"
| "unpack2 _ = Inl ValueError"

section \<open>The rule record (class \<open>MsgFilterRule\<close>)\<close>

record MsgFilterRule =
  name :: string
  enabled :: string
  type :: string
  action :: string
  action_value :: string
  condition :: string

text \<open>\<open>MsgFilterRule(name=value)\<close>: the constructor with every other argument at its
  default.\<close>

definition MsgFilterRule_init :: "string \<Rightarrow> MsgFilterRule" where
  "MsgFilterRule_init n =
     \<lparr>name = n, enabled = ''yes'', type = ''17'', action = ''Move to folder'',
      action_value = [], condition = []\<rparr>"

text \<open>The f-string \<open>key="{value}"\<close>.\<close>

definition quoted_line :: "string \<Rightarrow> string \<Rightarrow> string" where
  "quoted_line key v = key @ ''='' @ [dquote] @ v @ [dquote]"

definition to_string :: "MsgFilterRule \<Rightarrow> string" where
  "to_string r =
     join [newline]
       [quoted_line ''name'' (name r),
        quoted_line ''enabled'' (enabled r),
        quoted_line ''type'' (type r),
        quoted_line ''action'' (action r),
        quoted_line ''actionValue'' (action_value r),
        quoted_line ''condition'' (condition r)]"

section \<open>The parser object (class \<open>MsgFilterParser\<close>)\<close>

record MsgFilterParser =
  version :: string
  logging :: string
  rules :: "MsgFilterRule list"

definition MsgFilterParser_init :: MsgFilterParser where
  "MsgFilterParser_init = \<lparr>version = [], logging = [], rules = []\<rparr>"

subsection \<open>\<open>parse_content\<close>\<close>

text \<open>
  The state of the loop over the lines: the parser object (the loop assigns its
  \<open>version\<close> and \<open>logging\<close>), the local \<open>current_rule\<close> (\<open>None\<close> until the first
  \<open>name\<close> line) and the local list \<open>rules\<close>.
\<close>

record parse_state =
  ps_self :: MsgFilterParser
  current_rule :: "MsgFilterRule option"
  ps_rules :: "MsgFilterRule list"

text \<open>
  The head of the loop body: the line is stripped; an empty line and a line
  without \<open>=\<close> give no pair (\<open>None\<close>); any other line is cut at its first \<open>=\<close> into the
  stripped key and the stripped value with its quote characters removed by
  \<open>strip('"')\<close>.
\<close>

definition key_value :: "string \<Rightarrow> py_error + (string \<times> string) option" where
  "key_value raw =
     (let line = strip raw in
      if line = [] then Inr None
      else if CHR ''='' \<in> set line then
        (case unpack2 (split1 CHR ''='' line) of
           Inl e \<Rightarrow> Inl e
         | Inr (k, v) \<Rightarrow> Inr (Some (strip k, strip_chars [dquote] (strip v))))
      else Inr None)"

text \<open>The \<open>if\<close>/\<open>elif\<close> chain on the key, in the order of the source.\<close>

definition assign_key :: "parse_state \<Rightarrow> string \<Rightarrow> string \<Rightarrow> parse_state" where
  "assign_key st key v =
     (if key = ''version'' then st\<lparr>ps_self := (ps_self st)\<lparr>version := v\<rparr>\<rparr>
      else if key = ''logging'' then st\<lparr>ps_self := (ps_self st)\<lparr>logging := v\<rparr>\<rparr>
      else if key = ''name'' then
        st\<lparr>ps_rules := (case current_rule st of
                          Some r \<Rightarrow> ps_rules st @ [r]
                        | None \<Rightarrow> ps_rules st),
           current_rule := Some (MsgFilterRule_init v)\<rparr>
      else (case current_rule st of
              Some r \<Rightarrow>
                if key = ''enabled'' then st\<lparr>current_rule := Some (r\<lparr>enabled := v\<rparr>)\<rparr>
                else if key = ''type'' then st\<lparr>current_rule := Some (r\<lparr>type := v\<rparr>)\<rparr>
                else if key = ''action'' then st\<lparr>current_rule := Some (r\<lparr>action := v\<rparr>)\<rparr>
                else if key = ''actionValue'' then
                  st\<lparr>current_rule := Some (r\<lparr>action_value := v\<rparr>)\<rparr>
                else if key = ''condition'' then
                  st\<lparr>current_rule := Some (r\<lparr>condition := v\<rparr>)\<rparr>
                else st
            | None \<Rightarrow> st))"

definition process_line :: "parse_state \<Rightarrow> string \<Rightarrow> py_error + parse_state" where
  "process_line st raw =
     (case key_value raw of
        Inl e \<Rightarrow> Inl e
      | Inr None \<Rightarrow> Inr st
      | Inr (Some (key, v)) \<Rightarrow> Inr (assign_key st key v))"

text \<open>The \<open>for\<close> loop; an exception ends it.\<close>

fun process_lines :: "parse_state \<Rightarrow> string list \<Rightarrow> py_error + parse_state" where
  "process_lines st [] = Inr st"
| "process_lines st (l # ls) =
     (case process_line st l of
        Inl e \<Rightarrow> Inl e
      | Inr st' \<Rightarrow> process_lines st' ls)"

text \<open>After the loop: the open rule, if any, is appended.\<close>

definition finish :: "parse_state \<Rightarrow> MsgFilterRule list" where
  "finish st =
     (case current_rule st of
        Some r \<Rightarrow> ps_rules st @ [r]
      | None \<Rightarrow> ps_rules st)"

text \<open>\<open>parse_content\<close> returns the list of rules and leaves the parser object updated:
  the result is the pair of both.\<close>

definition parse_content ::
  "MsgFilterParser \<Rightarrow> string \<Rightarrow> py_error + (MsgFilterRule list \<times> MsgFilterParser)" where
  "parse_content self content =
     (let lines = split newline (strip content) in
      case process_lines \<lparr>ps_self = self, current_rule = None, ps_rules = []\<rparr> lines of
        Inl e \<Rightarrow> Inl e
      | Inr st \<Rightarrow> Inr (finish st, (ps_self st)\<lparr>rules := finish st\<rparr>))"

subsection \<open>\<open>write_file\<close>\<close>

text \<open>The loop \<open>for rule in rules: f.write(rule.to_string() + '\n')\<close>, with the text
  written so far as accumulator.\<close>

fun write_rules :: "string \<Rightarrow> MsgFilterRule list \<Rightarrow> string" where
  "write_rules out [] = out"
| "write_rules out (r # rs) = write_rules (out @ to_string r @ [newline]) rs"

text \<open>\<open>write_file\<close> opens the file for writing, so that the file holds exactly what the
  calls of \<open>f.write\<close> wrote: the model returns that text. The optional argument
  \<open>rules\<close> is an option.\<close>

definition write_file :: "MsgFilterParser \<Rightarrow> MsgFilterRule list option \<Rightarrow> string" where
  "write_file self rules_arg =
     (let rs = (case rules_arg of None \<Rightarrow> rules self | Some l \<Rightarrow> l);
          out0 = [];
          out1 = (if version self \<noteq> [] then out0 @ quoted_line ''version'' (version self) @ [newline]
                  else out0);
          out2 = (if logging self \<noteq> [] then out1 @ quoted_line ''logging'' (logging self) @ [newline]
                  else out1)
      in write_rules out2 rs)"

subsection \<open>Lookup, merge and creation\<close>

text \<open>
  \<open>find_rule_by_name\<close> returns a reference to the first rule of \<open>self.rules\<close> with the
  name, or \<open>None\<close>. The model of the loop returns the position of that rule in the
  list (the reference) with the rule; the entries of \<open>self.rules\<close> are distinct
  objects, as \<open>parse_content\<close> and \<open>create_new_rule\<close> build them.
\<close>

fun find_rule :: "MsgFilterRule list \<Rightarrow> string \<Rightarrow> (nat \<times> MsgFilterRule) option" where
  "find_rule [] n = None"
| "find_rule (r # rs) n =
     (if name r = n then Some (0, r)
      else map_option (\<lambda>(i, r'). (Suc i, r')) (find_rule rs n))"

definition find_rule_by_name :: "MsgFilterParser \<Rightarrow> string \<Rightarrow> MsgFilterRule option" where
  "find_rule_by_name self n = map_option snd (find_rule (rules self) n)"

text \<open>The f-string \<open>({header_field},contains,{value})\<close>.\<close>

definition term_of :: "string \<Rightarrow> string \<Rightarrow> string" where
  "term_of header_field v = ''('' @ header_field @ '',contains,'' @ v @ '')''"

text \<open>\<open>rule.condition = c\<close> through the reference: \<open>rule\<close> is the rule at position
  \<open>i\<close> of \<open>self.rules\<close>.\<close>

definition set_condition ::
  "MsgFilterParser \<Rightarrow> nat \<Rightarrow> MsgFilterRule \<Rightarrow> string \<Rightarrow> MsgFilterParser" where
  "set_condition self i rule c = self\<lparr>rules := (rules self)[i := rule\<lparr>condition := c\<rparr>]\<rparr>"

definition add_condition_to_rule ::
  "MsgFilterParser \<Rightarrow> string \<Rightarrow> string \<Rightarrow> string \<Rightarrow> bool \<times> MsgFilterParser" where
  "add_condition_to_rule self rule_name header_field v =
     (case find_rule (rules self) rule_name of
        None \<Rightarrow> (False, self)
      | Some (i, rule) \<Rightarrow>
          if condition rule = [] then
            (True, set_condition self i rule (''OR '' @ term_of header_field v))
          else
            let new_condition = term_of header_field v in
            if py_in new_condition (condition rule) then (True, self)
            else (True, set_condition self i rule
                         (condition rule @ '' OR '' @ term_of header_field v)))"

definition create_new_rule ::
  "MsgFilterParser \<Rightarrow> string \<Rightarrow> string \<Rightarrow> string \<Rightarrow> string \<Rightarrow> MsgFilterRule \<times> MsgFilterParser" where
  "create_new_rule self n header_field v av =
     (let cond = ''OR '' @ term_of header_field v;
          rule = \<lparr>name = n, enabled = ''yes'', type = ''17'', action = ''Move to folder'',
                  action_value = av, condition = cond\<rparr>
      in (rule, self\<lparr>rules := rules self @ [rule]\<rparr>))"

section \<open>The wording of the specification\<close>

text \<open>
  The value of a line as the specification words it: the text after the first
  \<open>=\<close>, trimmed, "with exactly one leading and one trailing literal quote
  character stripped if present".
\<close>

definition strip_one_quote_spec :: "string \<Rightarrow> string" where
  "strip_one_quote_spec s =
     (let s1 = (case s of c # cs \<Rightarrow> if c = dquote then cs else s | [] \<Rightarrow> s)
      in if s1 \<noteq> [] \<and> last s1 = dquote then butlast s1 else s1)"

text \<open>
  The serialized text as the specification words it: a rule is six lines, one per
  field, in the order name, enabled, type, action, actionValue, condition, each
  \<open>key="value"\<close> with the value as it is; a document is the \<open>version\<close> line if the
  version is not empty, the \<open>logging\<close> line if the logging value is not empty, then
  the six lines of every rule in list order; every line, the last one too, ends
  with one newline, and nothing stands between the lines.
\<close>

definition rule_lines_spec :: "MsgFilterRule \<Rightarrow> string list" where
  \<open>rule_lines_spec r =
     [''name="'' @ name r @ ''"'',
      ''enabled="'' @ enabled r @ ''"'',
      ''type="'' @ type r @ ''"'',
      ''action="'' @ action r @ ''"'',
      ''actionValue="'' @ action_value r @ ''"'',
      ''condition="'' @ condition r @ ''"'']\<close>

definition document_lines_spec :: "MsgFilterParser \<Rightarrow> string list" where
  \<open>document_lines_spec doc =
     (if version doc \<noteq> [] then [''version="'' @ version doc @ ''"''] else []) @
     (if logging doc \<noteq> [] then [''logging="'' @ logging doc @ ''"''] else []) @
     concat (map rule_lines_spec (rules doc))\<close>

definition serialize_spec :: "MsgFilterParser \<Rightarrow> string" where
  "serialize_spec doc = concat (map (\<lambda>l. l @ [newline]) (document_lines_spec doc))"

text \<open>The values a document holds: its two scalars and the six fields of every rule.\<close>

definition rule_values :: "MsgFilterRule \<Rightarrow> string list" where
  "rule_values r = [name r, enabled r, type r, action r, action_value r, condition r]"

definition document_values :: "MsgFilterParser \<Rightarrow> string list" where
  "document_values doc = version doc # logging doc # concat (map rule_values (rules doc))"

section \<open>Lookup and merge: auxiliary facts\<close>

lemma py_in_sublist: "py_in a b \<longleftrightarrow> sublist a b"
  by (induction b) (simp_all add: sublist_Cons_right)

lemma py_in_iff: "py_in a b \<longleftrightarrow> (\<exists>ps ss. b = ps @ a @ ss)"
  by (simp add: py_in_sublist sublist_def)

lemma find_rule_None: "find_rule rs n = None \<longleftrightarrow> (\<forall>r\<in>set rs. name r \<noteq> n)"
  by (induction rs) auto

lemma find_rule_Some:
  "find_rule rs n = Some (i, r) \<Longrightarrow>
     i < length rs \<and> rs ! i = r \<and> name r = n \<and> (\<forall>x\<in>set (take i rs). name x \<noteq> n)"
proof (induction rs arbitrary: i)
  case Nil
  then show ?case by simp
next
  case (Cons a rs)
  show ?case
  proof (cases "name a = n")
    case True
    with Cons.prems show ?thesis by auto
  next
    case False
    with Cons.prems obtain j where j: "find_rule rs n = Some (j, r)" "i = Suc j"
      by auto
    from Cons.IH [OF j(1)] False j(2) show ?thesis by auto
  qed
qed

lemma find_rule_update:
  "find_rule rs n = Some (i, r) \<Longrightarrow>
     find_rule (rs[i := r\<lparr>condition := c\<rparr>]) n = Some (i, r\<lparr>condition := c\<rparr>)"
proof (induction rs arbitrary: i)
  case Nil
  then show ?case by simp
next
  case (Cons a rs)
  show ?case
  proof (cases "name a = n")
    case True
    with Cons.prems show ?thesis by auto
  next
    case False
    with Cons.prems obtain j where j: "find_rule rs n = Some (j, r)" "i = Suc j"
      by auto
    from Cons.IH [OF j(1)] False j(2) show ?thesis by simp
  qed
qed

lemma term_of_nonempty: "term_of f v \<noteq> []"
  by (simp add: term_of_def)

lemma py_in_append_right: "py_in a (b @ a)"
  by (simp add: py_in_sublist)

lemma add_condition_found:
  assumes "find_rule (rules self) n = Some (i, r)"
  shows "add_condition_to_rule self n f v =
    (True,
     if condition r = [] then set_condition self i r (''OR '' @ term_of f v)
     else if py_in (term_of f v) (condition r) then self
     else set_condition self i r (condition r @ '' OR '' @ term_of f v))"
  using assms by (simp add: add_condition_to_rule_def Let_def)

lemma find_rule_set_condition:
  "find_rule (rules self) n = Some (i, r) \<Longrightarrow>
     find_rule (rules (set_condition self i r c)) n = Some (i, r\<lparr>condition := c\<rparr>)"
  by (simp add: set_condition_def find_rule_update)

lemma set_condition_twice:
  "set_condition (set_condition self i r c) i r' c' = set_condition self i r' c'"
  by (simp add: set_condition_def)

lemma add_condition_noop:
  assumes "find_rule (rules self) n = Some (i, r)" "py_in (term_of f v) (condition r)"
  shows "add_condition_to_rule self n f v = (True, self)"
proof -
  from assms(2) have "condition r \<noteq> []"
    by (auto simp: term_of_nonempty)
  with assms show ?thesis by (simp add: add_condition_found)
qed

lemma add_condition_idem:
  "add_condition_to_rule (snd (add_condition_to_rule self n f v)) n f v =
     add_condition_to_rule self n f v"
proof (cases "find_rule (rules self) n")
  case None
  then show ?thesis by (simp add: add_condition_to_rule_def)
next
  case (Some p)
  then obtain i r where fr: "find_rule (rules self) n = Some (i, r)"
    by (cases p) auto
  show ?thesis
  proof (cases "condition r = []")
    case True
    let ?c = "''OR '' @ term_of f v"
    have 1: "add_condition_to_rule self n f v = (True, set_condition self i r ?c)"
      using fr True by (simp add: add_condition_found)
    have "py_in (term_of f v) (condition (r\<lparr>condition := ?c\<rparr>))"
      using py_in_append_right [of "term_of f v" "''OR ''"] by simp
    then have "add_condition_to_rule (set_condition self i r ?c) n f v =
        (True, set_condition self i r ?c)"
      using find_rule_set_condition [OF fr] by (rule add_condition_noop [rotated])
    with 1 show ?thesis by simp
  next
    case False
    show ?thesis
    proof (cases "py_in (term_of f v) (condition r)")
      case True
      then show ?thesis using fr by (simp add: add_condition_noop)
    next
      case nin: False
      let ?c = "condition r @ '' OR '' @ term_of f v"
      have 1: "add_condition_to_rule self n f v = (True, set_condition self i r ?c)"
        using fr False nin by (simp add: add_condition_found)
      have "py_in (term_of f v) (condition (r\<lparr>condition := ?c\<rparr>))"
        using py_in_append_right [of "term_of f v" "condition r @ '' OR ''"] by simp
      then have "add_condition_to_rule (set_condition self i r ?c) n f v =
          (True, set_condition self i r ?c)"
        using find_rule_set_condition [OF fr] by (rule add_condition_noop [rotated])
      with 1 show ?thesis by simp
    qed
  qed
qed

lemma find_rule_by_name_None:
  "find_rule_by_name self n = None \<longleftrightarrow> (\<forall>r\<in>set (rules self). name r \<noteq> n)"
  by (simp add: find_rule_by_name_def find_rule_None)

lemma find_rule_by_name_SomeD:
  "find_rule_by_name self n = Some r \<Longrightarrow> \<exists>i. find_rule (rules self) n = Some (i, r)"
  by (auto simp: find_rule_by_name_def)

lemma find_rule_first:
  "find_rule rs n = Some (i, r) \<Longrightarrow>
     \<exists>pre post. rs = pre @ r # post \<and> length pre = i \<and> (\<forall>x\<in>set pre. name x \<noteq> n)"
proof -
  assume a: "find_rule rs n = Some (i, r)"
  from find_rule_Some [OF a] have "rs = take i rs @ r # drop (Suc i) rs"
    using id_take_nth_drop [of i rs] by simp
  moreover from find_rule_Some [OF a] have "length (take i rs) = i" by simp
  moreover from find_rule_Some [OF a] have "\<forall>x\<in>set (take i rs). name x \<noteq> n" by simp
  ultimately show ?thesis by blast
qed

lemma find_rule_append:
  "\<forall>x\<in>set pre. name x \<noteq> n \<Longrightarrow> name r = n \<Longrightarrow>
     find_rule (pre @ r # post) n = Some (length pre, r)"
  by (induction pre) auto

section \<open>Condition merge\<close>

text \<open>
  Claim C8. When no rule of the parser has the name, \<open>add_condition_to_rule\<close> returns
  \<open>False\<close> (it raises nothing) and the parser object is left as it was: its rule
  list, every field of every rule, and \<open>version\<close> and \<open>logging\<close>.
\<close>

theorem add_condition_rule_not_found:
  assumes "\<forall>r\<in>set (rules self). name r \<noteq> n"
  shows "find_rule_by_name self n = None \<and>
         add_condition_to_rule self n f v = (False, self)"
proof -
  from assms have "find_rule (rules self) n = None"
    by (simp add: find_rule_None)
  then show ?thesis
    by (simp add: find_rule_by_name_def add_condition_to_rule_def)
qed

theorem add_condition_rule_not_found_witness:
  "find_rule_by_name \<lparr>version = ''9'', logging = ''no'', rules = [MsgFilterRule_init ''A'']\<rparr> ''B''
     = None \<and>
   add_condition_to_rule \<lparr>version = ''9'', logging = ''no'', rules = [MsgFilterRule_init ''A'']\<rparr>
       ''B'' ''from'' ''x''
     = (False, \<lparr>version = ''9'', logging = ''no'', rules = [MsgFilterRule_init ''A'']\<rparr>)"
  using add_condition_rule_not_found
    [of "\<lparr>version = ''9'', logging = ''no'', rules = [MsgFilterRule_init ''A'']\<rparr>" "''B''"
        "''from''" "''x''"]
  by (simp add: MsgFilterRule_init_def)

text \<open>
  Claim C10. The duplicate check is a plain substring test: whenever the condition
  of the rule found holds the text \<open>(field,contains,value)\<close> anywhere, also inside
  the value of another term, \<open>add_condition_to_rule\<close> returns \<open>True\<close> and changes
  nothing.
\<close>

theorem add_condition_textual_duplicate:
  assumes "find_rule_by_name self n = Some r"
    and "condition r = pre @ term_of f v @ post"
  shows "condition r \<noteq> [] \<and> add_condition_to_rule self n f v = (True, self)"
proof -
  from assms(1) obtain i where fr: "find_rule (rules self) n = Some (i, r)"
    by (auto dest: find_rule_by_name_SomeD)
  from assms(2) have "py_in (term_of f v) (condition r)"
    by (auto simp: py_in_iff)
  with fr have "add_condition_to_rule self n f v = (True, self)"
    by (rule add_condition_noop)
  moreover from assms(2) have "condition r \<noteq> []"
    by (simp add: term_of_nonempty)
  ultimately show ?thesis by simp
qed

theorem add_condition_textual_duplicate_witness:
  "find_rule_by_name
     \<lparr>version = [], logging = [],
      rules = [(MsgFilterRule_init ''R'')
                 \<lparr>condition := ''OR (subject,contains,x(from,contains,a)y)''\<rparr>]\<rparr> ''R''
     = Some ((MsgFilterRule_init ''R'')\<lparr>condition := ''OR (subject,contains,x(from,contains,a)y)''\<rparr>) \<and>
   condition ((MsgFilterRule_init ''R'')\<lparr>condition := ''OR (subject,contains,x(from,contains,a)y)''\<rparr>)
     = ''OR (subject,contains,x'' @ term_of ''from'' ''a'' @ ''y)'' \<and>
   add_condition_to_rule
     \<lparr>version = [], logging = [],
      rules = [(MsgFilterRule_init ''R'')
                 \<lparr>condition := ''OR (subject,contains,x(from,contains,a)y)''\<rparr>]\<rparr>
     ''R'' ''from'' ''a''
     = (True,
        \<lparr>version = [], logging = [],
         rules = [(MsgFilterRule_init ''R'')
                    \<lparr>condition := ''OR (subject,contains,x(from,contains,a)y)''\<rparr>]\<rparr>)"
  using add_condition_textual_duplicate
    [of "\<lparr>version = [], logging = [],
          rules = [(MsgFilterRule_init ''R'')
                     \<lparr>condition := ''OR (subject,contains,x(from,contains,a)y)''\<rparr>]\<rparr>"
        "''R''"
        "(MsgFilterRule_init ''R'')\<lparr>condition := ''OR (subject,contains,x(from,contains,a)y)''\<rparr>"
        "''OR (subject,contains,x''" "''from''" "''a''" "''y)''"]
  by (simp add: MsgFilterRule_init_def find_rule_by_name_def term_of_def)

text \<open>
  Claim C1. Calling \<open>add_condition_to_rule\<close> a second time with the same arguments
  returns the same result and the same parser state as the first call did, so the
  condition string does not grow; and when the condition of the rule found already
  holds the term as a substring, the call changes nothing and returns \<open>True\<close>.
\<close>

theorem add_condition_idempotent:
  "add_condition_to_rule (snd (add_condition_to_rule self n f v)) n f v =
     add_condition_to_rule self n f v \<and>
   (find_rule_by_name self n = Some r \<and> py_in (term_of f v) (condition r) \<longrightarrow>
      add_condition_to_rule self n f v = (True, self))"
proof -
  have "add_condition_to_rule self n f v = (True, self)"
    if "find_rule_by_name self n = Some r" "py_in (term_of f v) (condition r)"
  proof -
    from that(1) obtain i where "find_rule (rules self) n = Some (i, r)"
      by (auto dest: find_rule_by_name_SomeD)
    then show ?thesis using that(2) by (rule add_condition_noop)
  qed
  then show ?thesis by (simp add: add_condition_idem)
qed

theorem add_condition_idempotent_witness:
  "add_condition_to_rule
     (snd (add_condition_to_rule
        \<lparr>version = [], logging = [],
         rules = [(MsgFilterRule_init ''R'')\<lparr>condition := ''OR (from,contains,x)''\<rparr>]\<rparr>
        ''R'' ''subject'' ''y''))
     ''R'' ''subject'' ''y''
   = (True, \<lparr>version = [], logging = [],
        rules = [(MsgFilterRule_init ''R'')
                   \<lparr>condition := ''OR (from,contains,x) OR (subject,contains,y)''\<rparr>]\<rparr>) \<and>
   find_rule_by_name
     \<lparr>version = [], logging = [],
      rules = [(MsgFilterRule_init ''R'')\<lparr>condition := ''OR (from,contains,x)''\<rparr>]\<rparr> ''R''
     = Some ((MsgFilterRule_init ''R'')\<lparr>condition := ''OR (from,contains,x)''\<rparr>) \<and>
   py_in (term_of ''from'' ''x'')
     (condition ((MsgFilterRule_init ''R'')\<lparr>condition := ''OR (from,contains,x)''\<rparr>)) \<and>
   add_condition_to_rule
     \<lparr>version = [], logging = [],
      rules = [(MsgFilterRule_init ''R'')\<lparr>condition := ''OR (from,contains,x)''\<rparr>]\<rparr>
     ''R'' ''from'' ''x''
   = (True, \<lparr>version = [], logging = [],
        rules = [(MsgFilterRule_init ''R'')\<lparr>condition := ''OR (from,contains,x)''\<rparr>]\<rparr>)"
  using add_condition_idempotent
    [of "\<lparr>version = [], logging = [],
          rules = [(MsgFilterRule_init ''R'')\<lparr>condition := ''OR (from,contains,x)''\<rparr>]\<rparr>"
        "''R''" "''subject''" "''y''"
        "(MsgFilterRule_init ''R'')\<lparr>condition := ''OR (from,contains,x)''\<rparr>"]
    add_condition_idempotent
    [of "\<lparr>version = [], logging = [],
          rules = [(MsgFilterRule_init ''R'')\<lparr>condition := ''OR (from,contains,x)''\<rparr>]\<rparr>"
        "''R''" "''from''" "''x''"
        "(MsgFilterRule_init ''R'')\<lparr>condition := ''OR (from,contains,x)''\<rparr>"]
  by (simp add: MsgFilterRule_init_def find_rule_by_name_def term_of_def
      add_condition_to_rule_def set_condition_def)

section \<open>Lookup and creation\<close>

lemma find_rule_by_name_Some_iff:
  "find_rule_by_name self q = Some r \<longleftrightarrow>
     (\<exists>pre post. rules self = pre @ r # post \<and> name r = q \<and> list_all (\<lambda>x. name x \<noteq> q) pre)"
proof
  assume "find_rule_by_name self q = Some r"
  then obtain i where fr: "find_rule (rules self) q = Some (i, r)"
    by (auto dest: find_rule_by_name_SomeD)
  from find_rule_first [OF fr] find_rule_Some [OF fr] show
    "\<exists>pre post. rules self = pre @ r # post \<and> name r = q \<and> list_all (\<lambda>x. name x \<noteq> q) pre"
    by (auto simp: list_all_iff)
next
  assume "\<exists>pre post. rules self = pre @ r # post \<and> name r = q \<and> list_all (\<lambda>x. name x \<noteq> q) pre"
  then obtain pre post where
    d: "rules self = pre @ r # post" "name r = q" "\<forall>x\<in>set pre. name x \<noteq> q"
    by (auto simp: list_all_iff)
  from find_rule_append [OF d(3) d(2), of post] d(1)
  show "find_rule_by_name self q = Some r"
    by (simp add: find_rule_by_name_def)
qed

text \<open>
  Claim C6. \<open>find_rule_by_name\<close> returns the first rule, in list order, whose name
  equals the query, and \<open>None\<close> when no rule has it. When no rule is named \<open>n\<close>,
  \<open>create_new_rule\<close> builds the rule with \<open>enabled = yes\<close>, \<open>type = 17\<close>,
  \<open>action = Move to folder\<close>, the given action value and the condition
  \<open>OR (field,contains,value)\<close>, appends it at the end of the rule list and returns it;
  it is then the only rule of that name and the one the lookup finds.
\<close>

theorem find_or_create:
  "(find_rule_by_name self q = Some r \<longleftrightarrow>
      (\<exists>pre post. rules self = pre @ r # post \<and> name r = q \<and>
         list_all (\<lambda>x. name x \<noteq> q) pre)) \<and>
   (list_all (\<lambda>x. name x \<noteq> n) (rules self) \<longrightarrow>
      find_rule_by_name self n = None \<and>
      create_new_rule self n f v av =
        (\<lparr>name = n, enabled = ''yes'', type = ''17'', action = ''Move to folder'',
          action_value = av, condition = ''OR ('' @ f @ '',contains,'' @ v @ '')''\<rparr>,
         self\<lparr>rules := rules self @
           [\<lparr>name = n, enabled = ''yes'', type = ''17'', action = ''Move to folder'',
             action_value = av, condition = ''OR ('' @ f @ '',contains,'' @ v @ '')''\<rparr>]\<rparr>) \<and>
      find_rule_by_name (snd (create_new_rule self n f v av)) n =
        Some (fst (create_new_rule self n f v av)) \<and>
      filter (\<lambda>x. name x = n) (rules (snd (create_new_rule self n f v av))) =
        [fst (create_new_rule self n f v av)])"
proof -
  have "find_rule_by_name self n = None \<and>
      create_new_rule self n f v av =
        (\<lparr>name = n, enabled = ''yes'', type = ''17'', action = ''Move to folder'',
          action_value = av, condition = ''OR ('' @ f @ '',contains,'' @ v @ '')''\<rparr>,
         self\<lparr>rules := rules self @
           [\<lparr>name = n, enabled = ''yes'', type = ''17'', action = ''Move to folder'',
             action_value = av, condition = ''OR ('' @ f @ '',contains,'' @ v @ '')''\<rparr>]\<rparr>) \<and>
      find_rule_by_name (snd (create_new_rule self n f v av)) n =
        Some (fst (create_new_rule self n f v av)) \<and>
      filter (\<lambda>x. name x = n) (rules (snd (create_new_rule self n f v av))) =
        [fst (create_new_rule self n f v av)]"
    if a: "list_all (\<lambda>x. name x \<noteq> n) (rules self)"
  proof -
    from a have no: "\<forall>x\<in>set (rules self). name x \<noteq> n"
      by (simp add: list_all_iff)
    then have 1: "find_rule_by_name self n = None"
      by (simp add: find_rule_by_name_None)
    have 2: "create_new_rule self n f v av =
        (\<lparr>name = n, enabled = ''yes'', type = ''17'', action = ''Move to folder'',
          action_value = av, condition = ''OR ('' @ f @ '',contains,'' @ v @ '')''\<rparr>,
         self\<lparr>rules := rules self @
           [\<lparr>name = n, enabled = ''yes'', type = ''17'', action = ''Move to folder'',
             action_value = av, condition = ''OR ('' @ f @ '',contains,'' @ v @ '')''\<rparr>]\<rparr>)"
      by (simp add: create_new_rule_def term_of_def Let_def)
    have 3: "find_rule_by_name (snd (create_new_rule self n f v av)) n =
        Some (fst (create_new_rule self n f v av))"
      unfolding 2 using find_rule_append [OF no, of _ "[]"]
      by (simp add: find_rule_by_name_def)
    have 4: "filter (\<lambda>x. name x = n) (rules (snd (create_new_rule self n f v av))) =
        [fst (create_new_rule self n f v av)]"
      unfolding 2 using no by (simp add: filter_empty_conv)
    from 1 2 3 4 show ?thesis by blast
  qed
  then show ?thesis
    using find_rule_by_name_Some_iff [of self q r] by blast
qed

theorem find_or_create_witness:
  "find_rule_by_name
     \<lparr>version = ''9'', logging = ''no'',
      rules = [MsgFilterRule_init ''A'', (MsgFilterRule_init ''B'')\<lparr>enabled := ''no''\<rparr>,
               MsgFilterRule_init ''B'']\<rparr> ''B''
     = Some ((MsgFilterRule_init ''B'')\<lparr>enabled := ''no''\<rparr>) \<and>
   create_new_rule
     \<lparr>version = ''9'', logging = ''no'',
      rules = [MsgFilterRule_init ''A'', (MsgFilterRule_init ''B'')\<lparr>enabled := ''no''\<rparr>,
               MsgFilterRule_init ''B'']\<rparr> ''W'' ''from'' ''a@b.com'' ''F''
     = (\<lparr>name = ''W'', enabled = ''yes'', type = ''17'', action = ''Move to folder'',
         action_value = ''F'', condition = ''OR (from,contains,a@b.com)''\<rparr>,
        \<lparr>version = ''9'', logging = ''no'',
         rules = [MsgFilterRule_init ''A'', (MsgFilterRule_init ''B'')\<lparr>enabled := ''no''\<rparr>,
                  MsgFilterRule_init ''B'',
                  \<lparr>name = ''W'', enabled = ''yes'', type = ''17'', action = ''Move to folder'',
                   action_value = ''F'', condition = ''OR (from,contains,a@b.com)''\<rparr>]\<rparr>)"
proof -
  let ?P = "\<lparr>version = ''9'', logging = ''no'',
      rules = [MsgFilterRule_init ''A'', (MsgFilterRule_init ''B'')\<lparr>enabled := ''no''\<rparr>,
               MsgFilterRule_init ''B'']\<rparr>"
  let ?r = "(MsgFilterRule_init ''B'')\<lparr>enabled := ''no''\<rparr>"
  note t = find_or_create [of ?P "''B''" ?r "''W''" "''from''" "''a@b.com''" "''F''"]
  have e: "\<exists>pre post. rules ?P = pre @ ?r # post \<and> name ?r = ''B'' \<and>
      list_all (\<lambda>x. name x \<noteq> ''B'') pre"
    by (intro exI [of _ "[MsgFilterRule_init ''A'']"] exI [of _ "[MsgFilterRule_init ''B'']"])
      (simp add: MsgFilterRule_init_def)
  have 1: "find_rule_by_name ?P ''B'' = Some ?r"
    using t [THEN conjunct1, THEN iffD2, OF e] .
  have l: "list_all (\<lambda>x. name x \<noteq> ''W'') (rules ?P)"
    by (simp add: MsgFilterRule_init_def)
  from t [THEN conjunct2, rule_format, OF l] 1 show ?thesis
    by (simp add: MsgFilterRule_init_def)
qed

section \<open>Order of the merged terms\<close>

text \<open>
  Claim C7, amended. On a rule whose condition is empty, adding \<open>(f1, v1)\<close> and then
  \<open>(f2, v2)\<close> gives \<open>OR (f1,contains,v1) OR (f2,contains,v2)\<close> when the second term
  does not occur in \<open>OR (f1,contains,v1)\<close>; when it does occur there (as for twice the
  same pair), the second call changes nothing and the condition stays
  \<open>OR (f1,contains,v1)\<close>.
\<close>

theorem add_condition_order:
  assumes "find_rule_by_name self n = Some r" and "condition r = []"
  shows "map_option condition
           (find_rule_by_name
              (snd (add_condition_to_rule (snd (add_condition_to_rule self n f1 v1)) n f2 v2)) n) =
         Some (if py_in (''('' @ f2 @ '',contains,'' @ v2 @ '')'')
                    (''OR ('' @ f1 @ '',contains,'' @ v1 @ '')'')
               then ''OR ('' @ f1 @ '',contains,'' @ v1 @ '')''
               else ''OR ('' @ f1 @ '',contains,'' @ v1 @ '') OR ('' @ f2 @ '',contains,'' @ v2 @ '')'')"
proof -
  from assms(1) obtain i where fr: "find_rule (rules self) n = Some (i, r)"
    by (auto dest: find_rule_by_name_SomeD)
  let ?c1 = "''OR '' @ term_of f1 v1"
  let ?s1 = "set_condition self i r ?c1"
  let ?r1 = "r\<lparr>condition := ?c1\<rparr>"
  have s1: "add_condition_to_rule self n f1 v1 = (True, ?s1)"
    using fr assms(2) by (simp add: add_condition_found)
  have fr1: "find_rule (rules ?s1) n = Some (i, ?r1)"
    using fr by (rule find_rule_set_condition)
  show ?thesis
  proof (cases "py_in (term_of f2 v2) ?c1")
    case True
    then have "add_condition_to_rule ?s1 n f2 v2 = (True, ?s1)"
      using fr1 by (simp add: add_condition_found)
    with s1 fr1 True show ?thesis
      by (simp add: find_rule_by_name_def term_of_def)
  next
    case False
    let ?c2 = "?c1 @ '' OR '' @ term_of f2 v2"
    have "add_condition_to_rule ?s1 n f2 v2 = (True, set_condition ?s1 i ?r1 ?c2)"
      using fr1 False by (simp add: add_condition_found)
    moreover have "find_rule (rules (set_condition ?s1 i ?r1 ?c2)) n = Some (i, ?r1\<lparr>condition := ?c2\<rparr>)"
      using fr1 by (rule find_rule_set_condition)
    ultimately show ?thesis using s1 False
      by (simp add: find_rule_by_name_def term_of_def)
  qed
qed

theorem add_condition_order_witness:
  "map_option condition
     (find_rule_by_name
        (snd (add_condition_to_rule
           (snd (add_condition_to_rule
              \<lparr>version = [], logging = [], rules = [MsgFilterRule_init ''R'']\<rparr>
              ''R'' ''from'' ''x''))
           ''R'' ''subject'' ''y'')) ''R'') =
   Some ''OR (from,contains,x) OR (subject,contains,y)''"
proof -
  have "find_rule_by_name \<lparr>version = [], logging = [], rules = [MsgFilterRule_init ''R'']\<rparr> ''R''
      = Some (MsgFilterRule_init ''R'')"
    by (simp add: find_rule_by_name_def MsgFilterRule_init_def)
  moreover have "condition (MsgFilterRule_init ''R'') = []"
    by (simp add: MsgFilterRule_init_def)
  ultimately show ?thesis
    using add_condition_order
      [of "\<lparr>version = [], logging = [], rules = [MsgFilterRule_init ''R'']\<rparr>" "''R''"
          "MsgFilterRule_init ''R''" "''from''" "''x''" "''subject''" "''y''"]
    by simp
qed

text \<open>
  The claim as stated, for every two pairs, fails for twice the same pair: the
  condition is \<open>OR (from,contains,a)\<close>, with one term.
\<close>

theorem add_condition_order_counterexample:
  "map_option condition
     (find_rule_by_name
        (snd (add_condition_to_rule
           (snd (add_condition_to_rule
              \<lparr>version = [], logging = [], rules = [MsgFilterRule_init ''R'']\<rparr>
              ''R'' ''from'' ''a''))
           ''R'' ''from'' ''a'')) ''R'') =
   Some ''OR (from,contains,a)'' \<and>
   map_option condition
     (find_rule_by_name
        (snd (add_condition_to_rule
           (snd (add_condition_to_rule
              \<lparr>version = [], logging = [], rules = [MsgFilterRule_init ''R'']\<rparr>
              ''R'' ''from'' ''a''))
           ''R'' ''from'' ''a'')) ''R'') \<noteq>
   Some ''OR (from,contains,a) OR (from,contains,a)''"
  by (simp add: add_condition_to_rule_def set_condition_def find_rule_by_name_def
      MsgFilterRule_init_def term_of_def)

section \<open>Parsing never fails\<close>

lemma unpack2_split1:
  "c \<in> set line \<Longrightarrow>
     unpack2 (split1 c line) =
       Inr (takeWhile (\<lambda>x. x \<noteq> c) line, tl (dropWhile (\<lambda>x. x \<noteq> c) line))"
  by (simp add: split1_def)

lemma key_value_eq:
  "key_value raw =
     Inr (if CHR ''='' \<in> set (strip raw)
          then Some (strip (takeWhile (\<lambda>x. x \<noteq> CHR ''='') (strip raw)),
                     strip_chars [dquote]
                       (strip (tl (dropWhile (\<lambda>x. x \<noteq> CHR ''='') (strip raw)))))
          else None)"
  by (auto simp: key_value_def Let_def unpack2_split1)

lemma key_value_no_error: "key_value raw \<noteq> Inl e"
  by (simp add: key_value_eq)

lemma process_line_eq:
  "process_line st raw =
     Inr (case key_value raw of
            Inr (Some (k, v)) \<Rightarrow> assign_key st k v
          | _ \<Rightarrow> st)"
  by (simp add: process_line_def key_value_eq)

lemma process_lines_eq:
  "process_lines st ls =
     Inr (foldl (\<lambda>s l. case key_value l of
                          Inr (Some (k, v)) \<Rightarrow> assign_key s k v
                        | _ \<Rightarrow> s) st ls)"
  by (induction ls arbitrary: st) (simp_all add: process_line_eq)

lemma process_lines_no_error: "\<exists>st'. process_lines st ls = Inr st'"
  by (simp add: process_lines_eq)

lemma parse_content_no_error: "\<exists>rs p. parse_content self content = Inr (rs, p)"
  by (simp add: parse_content_def Let_def process_lines_eq)

lemma process_line_skip:
  "key_value raw = Inr None \<Longrightarrow> process_line st raw = Inr st"
  by (simp add: process_line_def)

lemma process_line_pair:
  "key_value raw = Inr (Some (k, v)) \<Longrightarrow> process_line st raw = Inr (assign_key st k v)"
  by (simp add: process_line_def)

text \<open>
  Claim C9. For every parser object and every input string \<open>parse_content\<close> returns
  (the result is \<open>Inr\<close>, never an exception), and a line is skipped, leaving the
  loop state as it was, when its stripped text has no \<open>=\<close>, when it is made of
  whitespace only, when its key is none of the eight known keys, and when its key
  is a rule field while no rule is open.
\<close>

theorem parse_content_total:
  "(\<exists>rs p. parse_content self content = Inr (rs, p)) \<and>
   (CHR ''='' \<notin> set (strip l1) \<longrightarrow> process_line st l1 = Inr st) \<and>
   (list_all is_space l2 \<longrightarrow> process_line st l2 = Inr st) \<and>
   (key_value l3 = Inr (Some (k3, v3)) \<and>
    k3 \<notin> set [''version'', ''logging'', ''name'', ''enabled'', ''type'', ''action'',
               ''actionValue'', ''condition''] \<longrightarrow>
      process_line st l3 = Inr st) \<and>
   (key_value l4 = Inr (Some (k4, v4)) \<and> current_rule st = None \<and>
    k4 \<in> set [''enabled'', ''type'', ''action'', ''actionValue'', ''condition''] \<longrightarrow>
      process_line st l4 = Inr st)"
proof -
  have 1: "process_line st l1 = Inr st" if "CHR ''='' \<notin> set (strip l1)"
    using that by (simp add: process_line_skip key_value_eq)
  have 2: "process_line st l2 = Inr st" if "list_all is_space l2"
  proof -
    from that have d: "dropWhile is_space l2 = []"
      by (induction l2) simp_all
    have "strip l2 = []" unfolding strip_def d by simp
    then show ?thesis by (simp add: process_line_skip key_value_eq)
  qed
  have 3: "process_line st l3 = Inr st"
    if "key_value l3 = Inr (Some (k3, v3))"
      "k3 \<notin> set [''version'', ''logging'', ''name'', ''enabled'', ''type'', ''action'',
               ''actionValue'', ''condition'']"
  proof -
    from that(2) have "assign_key st k3 v3 = st"
      by (simp add: assign_key_def split: option.split)
    with that(1) show ?thesis by (simp add: process_line_pair)
  qed
  have 4: "process_line st l4 = Inr st"
    if "key_value l4 = Inr (Some (k4, v4))" "current_rule st = None"
      "k4 \<in> set [''enabled'', ''type'', ''action'', ''actionValue'', ''condition'']"
  proof -
    from that(2,3) have "assign_key st k4 v4 = st"
      by (auto simp: assign_key_def)
    with that(1) show ?thesis by (simp add: process_line_pair)
  qed
  from parse_content_no_error 1 2 3 4 show ?thesis by blast
qed

theorem parse_content_total_witness:
  "(\<exists>rs p. parse_content MsgFilterParser_init
       ''stray text

colour=red
enabled=no
name=A'' = Inr (rs, p)) \<and>
   process_line \<lparr>ps_self = MsgFilterParser_init, current_rule = None, ps_rules = []\<rparr>
     ''stray text'' =
     Inr \<lparr>ps_self = MsgFilterParser_init, current_rule = None, ps_rules = []\<rparr> \<and>
   process_line \<lparr>ps_self = MsgFilterParser_init, current_rule = None, ps_rules = []\<rparr>
     ''   '' =
     Inr \<lparr>ps_self = MsgFilterParser_init, current_rule = None, ps_rules = []\<rparr> \<and>
   process_line \<lparr>ps_self = MsgFilterParser_init, current_rule = None, ps_rules = []\<rparr>
     ''colour=red'' =
     Inr \<lparr>ps_self = MsgFilterParser_init, current_rule = None, ps_rules = []\<rparr> \<and>
   process_line \<lparr>ps_self = MsgFilterParser_init, current_rule = None, ps_rules = []\<rparr>
     ''enabled=no'' =
     Inr \<lparr>ps_self = MsgFilterParser_init, current_rule = None, ps_rules = []\<rparr>"
proof -
  let ?S = "\<lparr>ps_self = MsgFilterParser_init, current_rule = None, ps_rules = []\<rparr>"
  have 1: "CHR ''='' \<notin> set (strip ''stray text'')"
    by (simp add: strip_def is_space_def)
  have 2: "list_all is_space ''   ''"
    by (simp add: is_space_def)
  have 3: "key_value ''colour=red'' = Inr (Some (''colour'', ''red''))"
    by (simp add: key_value_eq strip_def strip_chars_def is_space_def)
  have 4: "key_value ''enabled=no'' = Inr (Some (''enabled'', ''no''))"
    by (simp add: key_value_eq strip_def strip_chars_def is_space_def)
  from 1 2 3 4 show ?thesis
    using parse_content_total
      [of MsgFilterParser_init "''stray text

colour=red
enabled=no
name=A''" "''stray text''" ?S "''   ''" "''colour=red''" "''colour''" "''red''"
        "''enabled=no''" "''enabled''" "''no''"]
    by simp
qed

section \<open>Record boundaries\<close>

lemma names_assign_key:
  "map name (finish (assign_key st k v)) =
     map name (finish st) @ (if k = ''name'' then [v] else [])"
  by (simp add: assign_key_def finish_def MsgFilterRule_init_def split: option.split)

lemma names_foldl:
  "map name (finish (foldl (\<lambda>s l. case key_value l of
                          Inr (Some (k, v)) \<Rightarrow> assign_key s k v
                        | _ \<Rightarrow> s) st ls)) =
   map name (finish st) @
   concat (map (\<lambda>l. case key_value l of
                       Inr (Some (k, v)) \<Rightarrow> if k = ''name'' then [v] else []
                     | _ \<Rightarrow> []) ls)"
proof (induction ls arbitrary: st)
  case Nil
  show ?case by simp
next
  case (Cons l ls)
  show ?case
  proof (cases "key_value l")
    case (Inl e)
    then show ?thesis by (simp add: key_value_no_error)
  next
    case (Inr kv)
    show ?thesis
    proof (cases kv)
      case None
      with Inr Cons.IH [of st] show ?thesis by simp
    next
      case (Some p)
      obtain k v where p: "p = (k, v)" by (cases p)
      from Cons.IH [of "assign_key st k v"] Inr Some p show ?thesis
        by (simp add: names_assign_key)
    qed
  qed
qed

lemma parse_content_names:
  "parse_content self content = Inr (rs, p) \<Longrightarrow>
     map name rs =
       concat (map (\<lambda>l. case key_value l of
                           Inr (Some (k, v)) \<Rightarrow> if k = ''name'' then [v] else []
                         | _ \<Rightarrow> []) (split newline (strip content)))"
proof -
  assume "parse_content self content = Inr (rs, p)"
  then have "rs = finish (foldl (\<lambda>s l. case key_value l of
                          Inr (Some (k, v)) \<Rightarrow> assign_key s k v
                        | _ \<Rightarrow> s) \<lparr>ps_self = self, current_rule = None, ps_rules = []\<rparr>
                     (split newline (strip content)))"
    by (simp add: parse_content_def Let_def process_lines_eq)
  moreover have "finish \<lparr>ps_self = self, current_rule = None, ps_rules = []\<rparr> = []"
    by (simp add: finish_def)
  ultimately show ?thesis
    by (simp only: names_foldl) simp
qed

text \<open>
  Claim C3. A line whose key is \<open>name\<close> appends the open rule, if there is one, to
  the list and opens a new rule with that name and every other field at its
  default; at the end of the input an open rule is appended, with no closing
  \<open>name\<close> line; so the names of the rules returned are the values of the
  \<open>name\<close> lines of the input, in order. A rule-field key read while no rule is open
  leaves the state unchanged.
\<close>

theorem record_boundaries:
  "(key_value l = Inr (Some (''name'', v)) \<longrightarrow>
      process_line st l =
        Inr \<lparr>ps_self = ps_self st,
             current_rule =
               Some \<lparr>name = v, enabled = ''yes'', type = ''17'', action = ''Move to folder'',
                     action_value = [], condition = []\<rparr>,
             ps_rules = ps_rules st @ (case current_rule st of None \<Rightarrow> [] | Some r \<Rightarrow> [r])\<rparr>) \<and>
   (process_lines \<lparr>ps_self = self, current_rule = None, ps_rules = []\<rparr>
        (split newline (strip content)) = Inr st' \<and> current_rule st' = Some r' \<longrightarrow>
      parse_content self content =
        Inr (ps_rules st' @ [r'], (ps_self st')\<lparr>rules := ps_rules st' @ [r']\<rparr>)) \<and>
   (parse_content self content = Inr (rs, p) \<longrightarrow>
      map name rs =
        concat (map (\<lambda>l. case key_value l of
                            Inr (Some (k, v)) \<Rightarrow> if k = ''name'' then [v] else []
                          | _ \<Rightarrow> []) (split newline (strip content)))) \<and>
   (key_value l' = Inr (Some (k', v')) \<and> current_rule st = None \<and>
    k' \<in> set [''enabled'', ''type'', ''action'', ''actionValue'', ''condition''] \<longrightarrow>
      process_line st l' = Inr st)"
proof -
  have 1: "process_line st l =
        Inr \<lparr>ps_self = ps_self st,
             current_rule =
               Some \<lparr>name = v, enabled = ''yes'', type = ''17'', action = ''Move to folder'',
                     action_value = [], condition = []\<rparr>,
             ps_rules = ps_rules st @ (case current_rule st of None \<Rightarrow> [] | Some r \<Rightarrow> [r])\<rparr>"
    if "key_value l = Inr (Some (''name'', v))"
    using that
    by (simp add: process_line_pair assign_key_def MsgFilterRule_init_def split: option.split)
  have 2: "parse_content self content =
        Inr (ps_rules st' @ [r'], (ps_self st')\<lparr>rules := ps_rules st' @ [r']\<rparr>)"
    if "process_lines \<lparr>ps_self = self, current_rule = None, ps_rules = []\<rparr>
        (split newline (strip content)) = Inr st'" "current_rule st' = Some r'"
    using that by (simp add: parse_content_def Let_def finish_def)
  have 4: "process_line st l' = Inr st"
    if "key_value l' = Inr (Some (k', v'))" "current_rule st = None"
      "k' \<in> set [''enabled'', ''type'', ''action'', ''actionValue'', ''condition'']"
  proof -
    from that(2,3) have "assign_key st k' v' = st"
      by (auto simp: assign_key_def)
    with that(1) show ?thesis by (simp add: process_line_pair)
  qed
  from 1 2 4 parse_content_names [of self content rs p] show ?thesis by blast
qed

theorem record_boundaries_witness:
  "process_line \<lparr>ps_self = MsgFilterParser_init, current_rule = None, ps_rules = []\<rparr> ''name=A'' =
     Inr \<lparr>ps_self = MsgFilterParser_init,
          current_rule =
            Some \<lparr>name = ''A'', enabled = ''yes'', type = ''17'', action = ''Move to folder'',
                  action_value = [], condition = []\<rparr>,
          ps_rules = []\<rparr> \<and>
   parse_content MsgFilterParser_init ''enabled=no
name=A
type=5
name=B'' =
     Inr ([\<lparr>name = ''A'', enabled = ''yes'', type = ''5'', action = ''Move to folder'',
            action_value = [], condition = []\<rparr>,
           \<lparr>name = ''B'', enabled = ''yes'', type = ''17'', action = ''Move to folder'',
            action_value = [], condition = []\<rparr>],
          \<lparr>version = [], logging = [],
           rules = [\<lparr>name = ''A'', enabled = ''yes'', type = ''5'', action = ''Move to folder'',
                     action_value = [], condition = []\<rparr>,
                    \<lparr>name = ''B'', enabled = ''yes'', type = ''17'', action = ''Move to folder'',
                     action_value = [], condition = []\<rparr>]\<rparr>) \<and>
   concat (map (\<lambda>l. case key_value l of
                       Inr (Some (k, v)) \<Rightarrow> if k = ''name'' then [v] else []
                     | _ \<Rightarrow> []) (split newline (strip ''enabled=no
name=A
type=5
name=B''))) = [''A'', ''B''] \<and>
   process_line \<lparr>ps_self = MsgFilterParser_init, current_rule = None, ps_rules = []\<rparr>
     ''enabled=no'' =
     Inr \<lparr>ps_self = MsgFilterParser_init, current_rule = None, ps_rules = []\<rparr>"
proof -
  let ?S = "\<lparr>ps_self = MsgFilterParser_init, current_rule = None, ps_rules = []\<rparr>"
  let ?A = "\<lparr>name = ''A'', enabled = ''yes'', type = ''5'', action = ''Move to folder'',
            action_value = [], condition = []\<rparr>"
  let ?B = "\<lparr>name = ''B'', enabled = ''yes'', type = ''17'', action = ''Move to folder'',
            action_value = [], condition = []\<rparr>"
  let ?c = "''enabled=no
name=A
type=5
name=B''"
  have sp: "split newline (strip ?c) = [''enabled=no'', ''name=A'', ''type=5'', ''name=B'']"
    by (simp add: strip_def is_space_def)
  have k1: "key_value ''enabled=no'' = Inr (Some (''enabled'', ''no''))"
    by (simp add: key_value_eq strip_def strip_chars_def is_space_def)
  have k2: "key_value ''name=A'' = Inr (Some (''name'', ''A''))"
    by (simp add: key_value_eq strip_def strip_chars_def is_space_def)
  have k3: "key_value ''type=5'' = Inr (Some (''type'', ''5''))"
    by (simp add: key_value_eq strip_def strip_chars_def is_space_def)
  have k4: "key_value ''name=B'' = Inr (Some (''name'', ''B''))"
    by (simp add: key_value_eq strip_def strip_chars_def is_space_def)
  have pl: "process_lines \<lparr>ps_self = MsgFilterParser_init, current_rule = None, ps_rules = []\<rparr>
      (split newline (strip ?c)) =
      Inr \<lparr>ps_self = MsgFilterParser_init, current_rule = Some ?B, ps_rules = [?A]\<rparr>"
    unfolding sp
    by (simp add: process_line_def k1 k2 k3 k4 assign_key_def MsgFilterRule_init_def)
  note t = record_boundaries
    [of "''name=A''" "''A''" ?S MsgFilterParser_init ?c
        "\<lparr>ps_self = MsgFilterParser_init, current_rule = Some ?B, ps_rules = [?A]\<rparr>" ?B
        "[?A, ?B]" "\<lparr>version = [], logging = [], rules = [?A, ?B]\<rparr>"
        "''enabled=no''" "''enabled''" "''no''"]
  from t k2 have 1: "process_line ?S ''name=A'' =
     Inr \<lparr>ps_self = MsgFilterParser_init,
          current_rule =
            Some \<lparr>name = ''A'', enabled = ''yes'', type = ''17'', action = ''Move to folder'',
                  action_value = [], condition = []\<rparr>,
          ps_rules = []\<rparr>"
    by simp
  from t pl have 2: "parse_content MsgFilterParser_init ?c =
     Inr ([?A, ?B], \<lparr>version = [], logging = [], rules = [?A, ?B]\<rparr>)"
    by (simp add: MsgFilterParser_init_def)
  from t 2 have 3: "concat (map (\<lambda>l. case key_value l of
                       Inr (Some (k, v)) \<Rightarrow> if k = ''name'' then [v] else []
                     | _ \<Rightarrow> []) (split newline (strip ?c))) = [''A'', ''B'']"
    by simp
  from t k1 have 4: "process_line ?S ''enabled=no'' = Inr ?S"
    by simp
  from 1 2 3 4 show ?thesis by simp
qed

section \<open>Serialization\<close>

lemma write_rules_eq:
  "write_rules out rs = out @ concat (map (\<lambda>r. to_string r @ [newline]) rs)"
  by (induction rs arbitrary: out) simp_all

lemma to_string_lines:
  "to_string r @ [newline] = concat (map (\<lambda>l. l @ [newline]) (rule_lines_spec r))"
  by (simp add: to_string_def rule_lines_spec_def quoted_line_def)

lemma concat_rule_lines:
  "concat (map (\<lambda>r. to_string r @ [newline]) rs) =
     concat (map (\<lambda>l. l @ [newline]) (concat (map rule_lines_spec rs)))"
  by (induction rs) (simp_all add: to_string_lines del: append_assoc)

lemma write_file_lines:
  "write_file self None = concat (map (\<lambda>l. l @ [newline]) (document_lines_spec self))"
  by (simp add: write_file_def Let_def write_rules_eq concat_rule_lines
      document_lines_spec_def quoted_line_def)

lemma write_file_Some:
  "write_file self (Some rs) = write_file (self\<lparr>rules := rs\<rparr>) None"
  by (simp add: write_file_def)

text \<open>
  Claim C5. The text that \<open>write_file\<close> writes is the serialization of the
  specification: the \<open>version\<close> line only if the version is not empty, the
  \<open>logging\<close> line only if the logging value is not empty, then for every rule, in
  list order, its six lines \<open>key="value"\<close> in the fixed order with nothing escaped,
  every line ended by one newline, so that no blank line separates two rules and
  the text ends with a newline. With an explicit rule list, that list is written
  in place of the parser's.
\<close>

theorem write_file_format:
  "write_file self None = serialize_spec self \<and>
   write_file self (Some rs) = serialize_spec (self\<lparr>rules := rs\<rparr>)"
  by (simp add: write_file_Some write_file_lines serialize_spec_def)

theorem write_file_format_witness:
  \<open>write_file
     \<lparr>version = ''9'', logging = ''no'',
      rules = [\<lparr>name = ''W'', enabled = ''yes'', type = ''17'', action = ''Move to folder'',
                action_value = ''F'', condition = ''OR (from,contains,a@b.com)''\<rparr>]\<rparr> None =
   ''version="9"
logging="no"
name="W"
enabled="yes"
type="17"
action="Move to folder"
actionValue="F"
condition="OR (from,contains,a@b.com)"
''\<close>
  using write_file_format
    [of "\<lparr>version = ''9'', logging = ''no'',
      rules = [\<lparr>name = ''W'', enabled = ''yes'', type = ''17'', action = ''Move to folder'',
                action_value = ''F'', condition = ''OR (from,contains,a@b.com)''\<rparr>]\<rparr>"]
  by (simp add: serialize_spec_def document_lines_spec_def rule_lines_spec_def)

section \<open>Value extraction\<close>

lemma all_same_replicate: "\<forall>x\<in>set xs. x = c \<Longrightarrow> xs = replicate (length xs) c"
  by (induction xs) simp_all

lemma takeWhile_eq_replicate:
  "takeWhile (\<lambda>x. x \<in> set [c]) xs = replicate (length (takeWhile (\<lambda>x. x \<in> set [c]) xs)) c"
proof (rule all_same_replicate)
  show "\<forall>x\<in>set (takeWhile (\<lambda>x. x \<in> set [c]) xs). x = c"
    by (auto dest: set_takeWhileD)
qed

lemma dropWhile_Cons_not: "dropWhile P xs = y # ys \<Longrightarrow> \<not> P y"
  by (metis hd_dropWhile list.sel(1) list.distinct(1))

lemma rev_dropWhile_takeWhile:
  "xs = rev (dropWhile P (rev xs)) @ rev (takeWhile P (rev xs))"
  by (metis rev_append rev_rev_ident takeWhile_dropWhile_id)

lemma strip_chars_decompose:
  "\<exists>a b. s = replicate a c @ strip_chars [c] s @ replicate b c"
proof -
  let ?P = "\<lambda>x. x \<in> set [c]"
  let ?s1 = "dropWhile ?P s"
  have 1: "s = takeWhile ?P s @ ?s1" by simp
  have 2: "?s1 = strip_chars [c] s @ rev (takeWhile ?P (rev ?s1))"
    unfolding strip_chars_def by (rule rev_dropWhile_takeWhile)
  have 3: "rev (takeWhile ?P (rev ?s1)) = replicate (length (takeWhile ?P (rev ?s1))) c"
    using takeWhile_eq_replicate [of c "rev ?s1"] by (metis rev_replicate)
  have 4: "takeWhile ?P s = replicate (length (takeWhile ?P s)) c"
    by (rule takeWhile_eq_replicate)
  have "s = replicate (length (takeWhile ?P s)) c @ strip_chars [c] s @
      replicate (length (takeWhile ?P (rev ?s1))) c"
    using 1 2 3 4 by metis
  then show ?thesis by blast
qed

lemma strip_chars_no_prefix: "\<not> prefix [c] (strip_chars [c] s)"
proof
  let ?P = "\<lambda>x. x \<in> set [c]"
  let ?s1 = "dropWhile ?P s"
  assume "prefix [c] (strip_chars [c] s)"
  then obtain zs where z: "strip_chars [c] s = c # zs"
    by (auto simp: prefix_def)
  have "?s1 = strip_chars [c] s @ rev (takeWhile ?P (rev ?s1))"
    unfolding strip_chars_def by (rule rev_dropWhile_takeWhile)
  with z have "?s1 = c # (zs @ rev (takeWhile ?P (rev ?s1)))" by simp
  then have "\<not> ?P c" by (rule dropWhile_Cons_not)
  then show False by simp
qed

lemma strip_chars_no_suffix: "\<not> suffix [c] (strip_chars [c] s)"
proof
  let ?P = "\<lambda>x. x \<in> set [c]"
  let ?t = "dropWhile ?P (rev (dropWhile ?P s))"
  assume "suffix [c] (strip_chars [c] s)"
  then obtain zs where "rev ?t = zs @ [c]"
    unfolding strip_chars_def suffix_def by blast
  then have "rev (rev ?t) = rev (zs @ [c])" by (rule arg_cong)
  then have "?t = c # rev zs" by (simp only: rev_rev_ident rev_append rev.simps append.simps)
  then have "\<not> ?P c" by (rule dropWhile_Cons_not)
  then show False by simp
qed

lemma key_value_split:
  assumes "strip raw = pre @ CHR ''='' # post" and "CHR ''='' \<notin> set pre"
  shows "key_value raw = Inr (Some (strip pre, strip_chars [dquote] (strip post)))"
proof -
  from assms have 1: "takeWhile (\<lambda>x. x \<noteq> CHR ''='') (strip raw) = pre"
    by (simp add: takeWhile_append)
  from assms have 2: "dropWhile (\<lambda>x. x \<noteq> CHR ''='') (strip raw) = CHR ''='' # post"
    by (simp add: dropWhile_append)
  from assms(1) have 3: "CHR ''='' \<in> set (strip raw)" by simp
  show ?thesis unfolding key_value_eq 1 2 using 3 by simp
qed

text \<open>
  Claim C4, amended. For a line whose stripped text has an \<open>=\<close>, the key is the text
  before the first \<open>=\<close>, stripped, and the value is the text after the first \<open>=\<close>,
  stripped of whitespace and then of every leading and every trailing quote
  character, as \<open>strip('"')\<close> does: the stripped text is the value between two runs
  of quote characters, and the value neither begins nor ends with a quote
  character.
\<close>

theorem value_extraction:
  assumes "strip raw = pre @ CHR ''='' # post" and "CHR ''='' \<notin> set pre"
  shows "key_value raw = Inr (Some (strip pre, strip_chars [dquote] (strip post))) \<and>
         (\<exists>a b. strip post =
            replicate a dquote @ strip_chars [dquote] (strip post) @ replicate b dquote) \<and>
         \<not> prefix [dquote] (strip_chars [dquote] (strip post)) \<and>
         \<not> suffix [dquote] (strip_chars [dquote] (strip post))"
  using key_value_split [OF assms] strip_chars_decompose [of "strip post" dquote]
    strip_chars_no_prefix [of dquote "strip post"] strip_chars_no_suffix [of dquote "strip post"]
  by simp

theorem value_extraction_witness:
  \<open>key_value ''  name = ""a"b""  '' = Inr (Some (''name'', ''a"b''))\<close>
proof -
  have 1: \<open>strip ''  name = ""a"b""  '' = ''name '' @ CHR ''='' # '' ""a"b""''\<close>
    by (simp add: strip_def is_space_def)
  have 2: "CHR ''='' \<notin> set ''name ''" by simp
  from value_extraction [OF 1 2] show ?thesis
    by (simp add: strip_def strip_chars_def is_space_def)
qed

text \<open>
  The claim as stated strips one quote character on each side: on the line
  \<open>k=""a""\<close> that leaves \<open>"a"\<close>, while the parser returns \<open>a\<close>.
\<close>

theorem value_extraction_counterexample:
  \<open>key_value ''k=""a""'' = Inr (Some (''k'', ''a'')) \<and>
   strip_one_quote_spec (strip (tl (dropWhile (\<lambda>c. c \<noteq> CHR ''='') ''k=""a""''))) = ''"a"''\<close>
  by (simp add: key_value_eq strip_def strip_chars_def is_space_def strip_one_quote_spec_def)

section \<open>Round trip: from the text back to the lines\<close>

lemma dropWhile_none: "(\<And>x. x \<in> set xs \<Longrightarrow> \<not> P x) \<Longrightarrow> dropWhile P xs = xs"
  by (cases xs) auto

lemma dropWhile_hd: "xs \<noteq> [] \<Longrightarrow> \<not> P (hd xs) \<Longrightarrow> dropWhile P xs = xs"
  by (cases xs) auto

lemma strip_id:
  assumes "x \<noteq> []" and "\<not> is_space (hd x)" and "\<not> is_space (last x)"
  shows "strip x = x"
proof -
  have 1: "dropWhile is_space x = x"
    using assms(1,2) by (rule dropWhile_hd)
  have "rev x \<noteq> []" "\<not> is_space (hd (rev x))"
    using assms(1,3) by (simp_all add: hd_rev)
  then have 2: "dropWhile is_space (rev x) = rev x"
    by (rule dropWhile_hd)
  show ?thesis unfolding strip_def 1 2 by simp
qed

lemma strip_snoc_newline:
  assumes "x \<noteq> []" and "\<not> is_space (hd x)" and "\<not> is_space (last x)"
  shows "strip (x @ [newline]) = x"
proof -
  have "x @ [newline] \<noteq> []" "\<not> is_space (hd (x @ [newline]))"
    using assms(1,2) by simp_all
  then have 1: "dropWhile is_space (x @ [newline]) = x @ [newline]"
    by (rule dropWhile_hd)
  have "rev x \<noteq> []" "\<not> is_space (hd (rev x))"
    using assms(1,3) by (simp_all add: hd_rev)
  then have 2: "dropWhile is_space (rev x) = rev x"
    by (rule dropWhile_hd)
  have 3: "dropWhile is_space (rev (x @ [newline])) = dropWhile is_space (rev x)"
    by (simp add: is_space_def)
  show ?thesis unfolding strip_def 1 3 2 by simp
qed

lemma split_no_sep: "c \<notin> set l \<Longrightarrow> split c l = [l]"
  by (induction l) auto

lemma split_sep: "c \<notin> set l \<Longrightarrow> split c (l @ c # rest) = l # split c rest"
  by (induction l) auto

lemma split_unlines:
  "\<forall>l\<in>set ls. c \<notin> set l \<Longrightarrow>
     split c (concat (map (\<lambda>l. l @ [c]) ls) @ rest) = ls @ split c rest"
  by (induction ls) (simp_all add: split_sep)

lemma unlines_butlast:
  assumes "ls \<noteq> []"
  shows "concat (map (\<lambda>l. l @ [c]) ls) =
         (concat (map (\<lambda>l. l @ [c]) (butlast ls)) @ last ls) @ [c]"
proof -
  from assms have "ls = butlast ls @ [last ls]" by simp
  then have "concat (map (\<lambda>l. l @ [c]) ls) =
      concat (map (\<lambda>l. l @ [c]) (butlast ls @ [last ls]))"
    by (rule arg_cong)
  then show ?thesis by simp
qed

lemma hd_unlines:
  assumes "ls \<noteq> []" and "hd ls \<noteq> []"
  shows "hd (concat (map (\<lambda>l. l @ [c]) (butlast ls)) @ last ls) = hd (hd ls)"
proof (cases ls)
  case Nil
  with assms show ?thesis by simp
next
  case (Cons l ls')
  with assms(2) have "l \<noteq> []" by simp
  then show ?thesis using Cons by (cases "ls' = []") simp_all
qed

lemma split_strip_unlines:
  assumes "ls \<noteq> []"
    and "\<forall>l\<in>set ls. l \<noteq> [] \<and> newline \<notin> set l \<and> \<not> is_space (hd l) \<and> \<not> is_space (last l)"
  shows "split newline (strip (concat (map (\<lambda>l. l @ [newline]) ls))) = ls"
proof -
  let ?T = "concat (map (\<lambda>l. l @ [newline]) (butlast ls)) @ last ls"
  from assms have hl: "hd ls \<in> set ls" "last ls \<in> set ls" by simp_all
  with assms(2) have ne: "hd ls \<noteq> []" "last ls \<noteq> []" by blast+
  have T1: "?T \<noteq> []" using ne by simp
  have T2: "\<not> is_space (hd ?T)"
    using hd_unlines [OF assms(1) ne(1), of newline] assms(2) hl(1) by simp
  have T3: "\<not> is_space (last ?T)"
    using ne(2) assms(2) hl(2) by simp
  have "strip (concat (map (\<lambda>l. l @ [newline]) ls)) = ?T"
    unfolding unlines_butlast [OF assms(1), of newline]
    using T1 T2 T3 by (rule strip_snoc_newline)
  moreover have "split newline ?T = butlast ls @ split newline (last ls)"
  proof (rule split_unlines)
    show "\<forall>l\<in>set (butlast ls). newline \<notin> set l"
      using assms(2) by (auto dest: in_set_butlastD)
  qed
  moreover have "split newline (last ls) = [last ls]"
    using assms(2) hl(2) by (simp add: split_no_sep)
  ultimately show ?thesis using assms(1) by simp
qed

section \<open>Round trip: from the lines back to the document\<close>

lemma strip_chars_quoted:
  assumes "dquote \<notin> set v"
  shows "strip_chars [dquote] (dquote # v @ [dquote]) = v"
proof -
  let ?P = "\<lambda>c. c \<in> set [dquote]"
  have v: "dropWhile ?P v = v"
    using assms by (intro dropWhile_none) auto
  have rv: "dropWhile ?P (rev v) = rev v"
    using assms by (intro dropWhile_none) auto
  have 1: "dropWhile ?P (dquote # v @ [dquote]) = dropWhile ?P (v @ [dquote])"
    by simp
  show ?thesis
  proof (cases "v = []")
    case True
    then show ?thesis by (simp add: strip_chars_def)
  next
    case False
    then have "hd v \<in> set v" by simp
    with assms have "\<not> ?P (hd v)" by auto
    with False have 2: "dropWhile ?P (v @ [dquote]) = v @ [dquote]"
      by (intro dropWhile_hd) simp_all
    have 3: "dropWhile ?P (rev (v @ [dquote])) = dropWhile ?P (rev v)"
      by simp
    show ?thesis unfolding strip_chars_def 1 2 3 rv by simp
  qed
qed

lemma key_value_quoted_line:
  assumes "k \<noteq> []" and "CHR ''='' \<notin> set k"
    and "\<not> is_space (hd k)" and "\<not> is_space (last k)" and "dquote \<notin> set v"
  shows "key_value (quoted_line k v) = Inr (Some (k, v))"
proof -
  have q: "\<not> is_space dquote" by (simp add: is_space_def)
  have "quoted_line k v \<noteq> []" "\<not> is_space (hd (quoted_line k v))"
    "\<not> is_space (last (quoted_line k v))"
    using assms(1,3) q by (simp_all add: quoted_line_def)
  then have "strip (quoted_line k v) = quoted_line k v" by (rule strip_id)
  then have s: "strip (quoted_line k v) = k @ CHR ''='' # (dquote # v @ [dquote])"
    by (simp add: quoted_line_def)
  have sk: "strip k = k" using assms(1,3,4) by (rule strip_id)
  have "dquote # v @ [dquote] \<noteq> []" "\<not> is_space (hd (dquote # v @ [dquote]))"
    "\<not> is_space (last (dquote # v @ [dquote]))"
    using q by simp_all
  then have sv: "strip (dquote # v @ [dquote]) = dquote # v @ [dquote]" by (rule strip_id)
  show ?thesis
    unfolding key_value_split [OF s assms(2)] sk sv strip_chars_quoted [OF assms(5)] ..
qed

lemma quoted_line_shape:
  assumes "k \<noteq> []" and "newline \<notin> set k" and "\<not> is_space (hd k)" and "newline \<notin> set v"
  shows "quoted_line k v \<noteq> [] \<and> newline \<notin> set (quoted_line k v) \<and>
         \<not> is_space (hd (quoted_line k v)) \<and> \<not> is_space (last (quoted_line k v))"
  using assms by (simp add: quoted_line_def is_space_def)

lemma process_lines_pairs:
  assumes "\<forall>(k, v)\<in>set kvs. k \<noteq> [] \<and> CHR ''='' \<notin> set k \<and> \<not> is_space (hd k) \<and>
             \<not> is_space (last k) \<and> dquote \<notin> set v"
  shows "process_lines st (map (\<lambda>(k, v). quoted_line k v) kvs) =
         Inr (foldl (\<lambda>s (k, v). assign_key s k v) st kvs)"
  using assms
proof (induction kvs arbitrary: st)
  case Nil
  show ?case by simp
next
  case (Cons p kvs)
  obtain k v where p: "p = (k, v)" by (cases p)
  from Cons.prems p have "key_value (quoted_line k v) = Inr (Some (k, v))"
    by (intro key_value_quoted_line) simp_all
  then have "process_line st (quoted_line k v) = Inr (assign_key st k v)"
    by (rule process_line_pair)
  moreover from Cons.prems have
    "process_lines (assign_key st k v) (map (\<lambda>(k, v). quoted_line k v) kvs) =
       Inr (foldl (\<lambda>s (k, v). assign_key s k v) (assign_key st k v) kvs)"
    by (intro Cons.IH) simp
  ultimately show ?case using p by simp
qed

lemma foldl_rule_pairs:
  "foldl (\<lambda>s (k, v). assign_key s k v) st
     [(''name'', name r), (''enabled'', enabled r), (''type'', type r),
      (''action'', action r), (''actionValue'', action_value r), (''condition'', condition r)] =
   \<lparr>ps_self = ps_self st, current_rule = Some r, ps_rules = finish st\<rparr>"
  by (simp add: assign_key_def finish_def MsgFilterRule_init_def split: option.split)

lemma foldl_rules_pairs:
  "foldl (\<lambda>s (k, v). assign_key s k v) st
     (concat (map (\<lambda>r. [(''name'', name r), (''enabled'', enabled r), (''type'', type r),
        (''action'', action r), (''actionValue'', action_value r),
        (''condition'', condition r)]) rs)) = st' \<Longrightarrow>
   ps_self st' = ps_self st \<and> finish st' = finish st @ rs"
proof (induction rs arbitrary: st)
  case Nil
  then show ?case by simp
next
  case (Cons r rs)
  let ?st1 = "\<lparr>ps_self = ps_self st, current_rule = Some r, ps_rules = finish st\<rparr>"
  from Cons.prems have "foldl (\<lambda>s (k, v). assign_key s k v) ?st1
     (concat (map (\<lambda>r. [(''name'', name r), (''enabled'', enabled r), (''type'', type r),
        (''action'', action r), (''actionValue'', action_value r),
        (''condition'', condition r)]) rs)) = st'"
    by (simp only: list.map concat.simps foldl_append foldl_rule_pairs)
  from Cons.IH [OF this] show ?case by (simp add: finish_def)
qed

lemma rule_lines_pairs:
  "concat (map rule_lines_spec rs) =
     map (\<lambda>(k, v). quoted_line k v)
       (concat (map (\<lambda>r. [(''name'', name r), (''enabled'', enabled r), (''type'', type r),
          (''action'', action r), (''actionValue'', action_value r),
          (''condition'', condition r)]) rs))"
  by (induction rs) (simp_all add: rule_lines_spec_def quoted_line_def)

lemma key_value_empty: "key_value [] = Inr None"
  by (simp add: key_value_eq strip_def)

text \<open>
  Claim C2, amended. When no value of the document (the version, the logging value
  and the six fields of every rule) holds a quote character or a newline, parsing
  the text that \<open>write_file\<close> writes, with a new parser, returns the rules of the
  document and leaves the parser equal to the document: the same version and
  logging value and, rule by rule, the same six fields.
\<close>

theorem round_trip:
  assumes "list_all (\<lambda>s. dquote \<notin> set s \<and> newline \<notin> set s) (document_values doc)"
  shows "parse_content MsgFilterParser_init (write_file doc None) = Inr (rules doc, doc)"
proof -
  let ?Q = "\<lambda>(k, v). quoted_line k v"
  let ?A = "\<lambda>s (k, v). assign_key s k v"
  let ?st0 = "\<lparr>ps_self = MsgFilterParser_init, current_rule = None, ps_rules = []\<rparr>"
  let ?vp = "if version doc \<noteq> [] then [(''version'', version doc)] else []"
  let ?lp = "if logging doc \<noteq> [] then [(''logging'', logging doc)] else []"
  let ?rp = "concat (map (\<lambda>r. [(''name'', name r), (''enabled'', enabled r), (''type'', type r),
          (''action'', action r), (''actionValue'', action_value r),
          (''condition'', condition r)]) (rules doc))"
  define kvs where "kvs = ?vp @ ?lp @ ?rp"
  have lines: "document_lines_spec doc = map ?Q kvs"
    by (simp add: document_lines_spec_def kvs_def rule_lines_pairs quoted_line_def)
  from assms have vals: "dquote \<notin> set (version doc)" "newline \<notin> set (version doc)"
    "dquote \<notin> set (logging doc)" "newline \<notin> set (logging doc)"
    "\<forall>r\<in>set (rules doc). \<forall>s\<in>set (rule_values r). dquote \<notin> set s \<and> newline \<notin> set s"
    by (auto simp: document_values_def list_all_iff)
  have good: "\<forall>(k, v)\<in>set kvs. k \<noteq> [] \<and> CHR ''='' \<notin> set k \<and> newline \<notin> set k \<and>
      \<not> is_space (hd k) \<and> \<not> is_space (last k) \<and> dquote \<notin> set v \<and> newline \<notin> set v"
    using vals by (auto simp: kvs_def rule_values_def is_space_def)
  have wf: "write_file doc None = concat (map (\<lambda>l. l @ [newline]) (map ?Q kvs))"
    by (simp only: write_file_lines lines)
  have sp: "process_lines ?st0 (split newline (strip (write_file doc None))) =
      Inr (foldl ?A ?st0 kvs)"
  proof (cases "kvs = []")
    case True
    then show ?thesis
      by (simp add: wf strip_def process_line_skip key_value_empty)
  next
    case False
    have "split newline (strip (concat (map (\<lambda>l. l @ [newline]) (map ?Q kvs)))) = map ?Q kvs"
    proof (rule split_strip_unlines)
      show "map ?Q kvs \<noteq> []" using False by simp
      show "\<forall>l\<in>set (map ?Q kvs). l \<noteq> [] \<and> newline \<notin> set l \<and>
          \<not> is_space (hd l) \<and> \<not> is_space (last l)"
      proof
        fix l assume "l \<in> set (map ?Q kvs)"
        then obtain k v where kv: "(k, v) \<in> set kvs" "l = quoted_line k v" by auto
        from good kv(1) have "k \<noteq> []" "newline \<notin> set k" "\<not> is_space (hd k)"
          "newline \<notin> set v" by auto
        then show "l \<noteq> [] \<and> newline \<notin> set l \<and> \<not> is_space (hd l) \<and> \<not> is_space (last l)"
          unfolding kv(2) by (rule quoted_line_shape)
      qed
    qed
    moreover have "process_lines ?st0 (map ?Q kvs) = Inr (foldl ?A ?st0 kvs)"
      using good by (intro process_lines_pairs) auto
    ultimately show ?thesis by (simp only: wf)
  qed
  let ?st2 = "\<lparr>ps_self = \<lparr>version = version doc, logging = logging doc, rules = []\<rparr>,
      current_rule = None, ps_rules = []\<rparr>"
  have st2: "foldl ?A (foldl ?A ?st0 ?vp) ?lp = ?st2"
    by (simp add: assign_key_def MsgFilterParser_init_def)
  have "foldl ?A ?st0 kvs = foldl ?A ?st2 ?rp"
    unfolding kvs_def foldl_append st2 ..
  from foldl_rules_pairs [OF this [symmetric]]
  have fin: "ps_self (foldl ?A ?st0 kvs) =
        \<lparr>version = version doc, logging = logging doc, rules = []\<rparr>"
      "finish (foldl ?A ?st0 kvs) = rules doc"
    by (simp_all add: finish_def)
  show ?thesis
    by (simp add: parse_content_def Let_def sp fin)
qed

theorem round_trip_witness:
  "parse_content MsgFilterParser_init
     (write_file
        \<lparr>version = ''9'', logging = ''no'',
         rules = [\<lparr>name = ''W'', enabled = ''yes'', type = ''17'', action = ''Move to folder'',
                   action_value = ''imap://u@h/F'',
                   condition = ''OR (from,contains,a@b.com) OR (subject,contains, x=y )''\<rparr>,
                  \<lparr>name = [], enabled = ''no'', type = ''17'', action = ''Move to folder'',
                   action_value = [], condition = []\<rparr>]\<rparr> None) =
   Inr ([\<lparr>name = ''W'', enabled = ''yes'', type = ''17'', action = ''Move to folder'',
          action_value = ''imap://u@h/F'',
          condition = ''OR (from,contains,a@b.com) OR (subject,contains, x=y )''\<rparr>,
         \<lparr>name = [], enabled = ''no'', type = ''17'', action = ''Move to folder'',
          action_value = [], condition = []\<rparr>],
        \<lparr>version = ''9'', logging = ''no'',
         rules = [\<lparr>name = ''W'', enabled = ''yes'', type = ''17'', action = ''Move to folder'',
                   action_value = ''imap://u@h/F'',
                   condition = ''OR (from,contains,a@b.com) OR (subject,contains, x=y )''\<rparr>,
                  \<lparr>name = [], enabled = ''no'', type = ''17'', action = ''Move to folder'',
                   action_value = [], condition = []\<rparr>]\<rparr>)"
  using round_trip
    [of "\<lparr>version = ''9'', logging = ''no'',
         rules = [\<lparr>name = ''W'', enabled = ''yes'', type = ''17'', action = ''Move to folder'',
                   action_value = ''imap://u@h/F'',
                   condition = ''OR (from,contains,a@b.com) OR (subject,contains, x=y )''\<rparr>,
                  \<lparr>name = [], enabled = ''no'', type = ''17'', action = ''Move to folder'',
                   action_value = [], condition = []\<rparr>]\<rparr>"]
  by (simp add: document_values_def rule_values_def)

text \<open>
  With the proviso of the claim alone (no quote character in any value) the round
  trip fails for a value that holds a newline: the rule named \<open>a\<close>, newline, \<open>b\<close>
  comes back named \<open>a\<close>.
\<close>

theorem round_trip_counterexample:
  "list_all (\<lambda>s. dquote \<notin> set s)
     (document_values
        \<lparr>version = ''9'', logging = [],
         rules = [MsgFilterRule_init [CHR ''a'', newline, CHR ''b'']]\<rparr>) \<and>
   parse_content MsgFilterParser_init
     (write_file
        \<lparr>version = ''9'', logging = [],
         rules = [MsgFilterRule_init [CHR ''a'', newline, CHR ''b'']]\<rparr> None) =
   Inr ([MsgFilterRule_init ''a''],
        \<lparr>version = ''9'', logging = [], rules = [MsgFilterRule_init ''a'']\<rparr>) \<and>
   parse_content MsgFilterParser_init
     (write_file
        \<lparr>version = ''9'', logging = [],
         rules = [MsgFilterRule_init [CHR ''a'', newline, CHR ''b'']]\<rparr> None) \<noteq>
   Inr ([MsgFilterRule_init [CHR ''a'', newline, CHR ''b'']],
        \<lparr>version = ''9'', logging = [],
         rules = [MsgFilterRule_init [CHR ''a'', newline, CHR ''b'']]\<rparr>)"
proof -
  let ?D = "\<lparr>version = ''9'', logging = [],
         rules = [MsgFilterRule_init [CHR ''a'', newline, CHR ''b'']]\<rparr>"
  have 1: "list_all (\<lambda>s. dquote \<notin> set s) (document_values ?D)"
    by (simp add: document_values_def rule_values_def MsgFilterRule_init_def)
  have w: "split newline (strip (write_file ?D None)) =
      [quoted_line ''version'' ''9'', CHR ''n'' # CHR ''a'' # CHR ''m'' # CHR ''e'' # CHR ''='' # dquote # ''a'',
       CHR ''b'' # [dquote],
       quoted_line ''enabled'' ''yes'', quoted_line ''type'' ''17'',
       quoted_line ''action'' ''Move to folder'', quoted_line ''actionValue'' [],
       quoted_line ''condition'' []]"
    by (simp add: write_file_def to_string_def quoted_line_def MsgFilterRule_init_def
        strip_def is_space_def)
  have k: "key_value (quoted_line ''version'' ''9'') = Inr (Some (''version'', ''9''))"
    "key_value (CHR ''n'' # CHR ''a'' # CHR ''m'' # CHR ''e'' # CHR ''='' # dquote # ''a'') =
       Inr (Some (''name'', ''a''))"
    "key_value (CHR ''b'' # [dquote]) = Inr None"
    "key_value (quoted_line ''enabled'' ''yes'') = Inr (Some (''enabled'', ''yes''))"
    "key_value (quoted_line ''type'' ''17'') = Inr (Some (''type'', ''17''))"
    "key_value (quoted_line ''action'' ''Move to folder'') =
       Inr (Some (''action'', ''Move to folder''))"
    "key_value (quoted_line ''actionValue'' []) = Inr (Some (''actionValue'', []))"
    "key_value (quoted_line ''condition'' []) = Inr (Some (''condition'', []))"
    by (simp_all add: key_value_eq quoted_line_def strip_def strip_chars_def is_space_def)
  have 2: "parse_content MsgFilterParser_init (write_file ?D None) =
      Inr ([MsgFilterRule_init ''a''],
        \<lparr>version = ''9'', logging = [], rules = [MsgFilterRule_init ''a'']\<rparr>)"
    unfolding parse_content_def Let_def w
    by (simp add: process_line_def k assign_key_def finish_def MsgFilterRule_init_def
        MsgFilterParser_init_def)
  have 3: "parse_content MsgFilterParser_init (write_file ?D None) \<noteq>
      Inr ([MsgFilterRule_init [CHR ''a'', newline, CHR ''b'']], ?D)"
    unfolding 2 by (simp add: MsgFilterRule_init_def)
  from 1 2 3 show ?thesis by blast
qed

end
